theory Spec2Isabelle
  imports Main "HOL-Library.Multiset"
begin

section \<open>Values, players and identifiers\<close>

text \<open>
  The dispatcher is written in TypeScript for a Lua runtime. Arguments that cross the
  client/server boundary have the type \<open>unknown\<close>; \<open>rvalue\<close> is the part of it the
  dispatcher can tell apart (\<open>typeIs(key, 'string')\<close>) or passes on (\<open>player\<close>).
\<close>

datatype player = Player (Name: string)

datatype rvalue = VNil | VBool bool | VNum int | VStr string | VPlayer player

text \<open>
  \<open>OperationExternalIdentifier.group\<close> is a reference to one of the tables of the
  dispatcher: \<open>listen\<close> passes \<open>this.boundOperations\<close>, \<open>listenPost\<close> passes
  \<open>this.boundPostOperations\<close> and \<open>on\<close> passes \<open>this.incomingEvents\<close> to
  \<open>bindListen\<close>, and no field is ever assigned again. The reference is modelled by the
  name of the field it points to. The field \<open>id\<close> is written \<open>id'\<close>.
\<close>

datatype group = BoundOperations | BoundPostOperations | IncomingEvents

record OperationExternalIdentifier =
  group :: group
  handle :: string
  id' :: nat

section \<open>Handlers\<close>

text \<open>
  A handler is a callback supplied by the user of the dispatcher. What the dispatcher
  can see of it is that it is called, what it returns, and what it does to the
  dispatcher while it runs: a handler may subscribe further handlers and may unbind
  identifiers it holds. \<open>body\<close> lists these calls in the order the handler makes them;
  \<open>ret\<close> is the value it returns for given arguments.
\<close>

datatype handler = Handler (hname: string) (body: "effect list") (ret: "rvalue list \<Rightarrow> rvalue")
  and effect =
      DoListen string handler
    | DoListenPost string handler
    | DoOn string handler
    | DoUnbind OperationExternalIdentifier

section \<open>Map\<close>

text \<open>
  \<open>OperationIdArray\<close> is a \<open>Map<number, handler>\<close> of roblox-ts, which is a Lua table
  (the source calls \<open>size()\<close> on it and walks it with \<open>pairs\<close>). A table is modelled by its
  entries in the order a traversal meets them. That order is the runtime's, not the
  program's: when a key that is not in the table is assigned, the runtime may lay the
  table out anew. A \<open>layout\<close> stands for what the runtime does then, \<open>place L m\<close> being
  the table \<open>m\<close> laid out by \<open>L\<close>; all that is known of it is that it keeps the entries
  (\<open>admissible\<close>). Assigning to a key that is in the
  table changes the value where it stands. \<open>delete\<close> assigns \<open>nil\<close>: the entry is
  emptied where it stands, so that a traversal under way goes on past it and does not
  meet it; it says whether there was an entry. An emptied entry is \<open>None\<close>.
\<close>

type_synonym OperationIdArray = "(nat \<times> handler) option list"

fun entries :: "OperationIdArray \<Rightarrow> (nat \<times> handler) list" where
  "entries [] = []"
| "entries (None # m) = entries m"
| "entries (Some e # m) = e # entries m"

definition admissible :: "(OperationIdArray \<Rightarrow> OperationIdArray) \<Rightarrow> bool" where
  "admissible L \<longleftrightarrow> (\<forall>m. mset (entries (L m)) = mset (entries m))"



typedef layout = "{L :: OperationIdArray \<Rightarrow> OperationIdArray. admissible L}"
  morphisms place Abs_layout
  by (rule exI[of _ "\<lambda>m. m"]) (simp add: admissible_def)

setup_lifting type_definition_layout

text \<open>
  Two runtimes: one puts a new key last, as a Map that keeps insertion order would;
  the other turns the table round whenever a key is added.
\<close>

lift_definition appending :: layout is "\<lambda>m. m"
  by (simp add: admissible_def)


fun map_replace :: "nat \<Rightarrow> handler \<Rightarrow> OperationIdArray \<Rightarrow> OperationIdArray" where
  "map_replace k v [] = []"
| "map_replace k v (None # m) = None # map_replace k v m"
| "map_replace k v (Some (k', v') # m) =
     (if k' = k then Some (k, v) # m else Some (k', v') # map_replace k v m)"

definition map_set :: "layout \<Rightarrow> nat \<Rightarrow> handler \<Rightarrow> OperationIdArray \<Rightarrow> OperationIdArray" where
  "map_set L k v m =
     (if k \<in> fst ` set (entries m) then map_replace k v m else place L (m @ [Some (k, v)]))"

fun map_delete :: "nat \<Rightarrow> OperationIdArray \<Rightarrow> bool \<times> OperationIdArray" where
  "map_delete k [] = (False, [])"
| "map_delete k (None # m) = (case map_delete k m of (b, m') \<Rightarrow> (b, None # m'))"
| "map_delete k (Some (k', v') # m) =
     (if k' = k then (True, None # m)
      else (case map_delete k m of (b, m') \<Rightarrow> (b, Some (k', v') # m')))"

definition map_size :: "OperationIdArray \<Rightarrow> nat" where
  "map_size m = length (entries m)"

type_synonym ClassOperationMap = "string \<rightharpoonup> OperationIdArray"

section \<open>The dispatcher\<close>

text \<open>
  One record holds the fields of \<open>BaseDispatcher\<close> and the two tables
  \<open>BaseServerDispatcher\<close> adds. \<open>BaseClientDispatcher\<close> adds no table: on a client
  \<open>incomingEvents\<close> and \<open>incomingFunctions\<close> stay empty, as no client method writes
  them. \<open>caseNumber\<close> is a Lua number that only ever counts up from 0 by one; it is
  a natural number here, which is exact below \<open>2 ^ 53\<close>. \<open>tableLayout\<close> is not a
  field of the class: it is the runtime's \<open>layout\<close>, carried along so that every method
  can read it; no method changes it.
\<close>

record dispatcher =
  caseNumber :: nat
  boundOperations :: ClassOperationMap
  boundPostOperations :: ClassOperationMap
  verbose :: bool
  incomingEvents :: ClassOperationMap
  incomingFunctions :: "string \<rightharpoonup> handler"
  tableLayout :: layout

text \<open>
  \<open>IndexUndefined\<close> and \<open>CallUndefined\<close> are what Lua raises when \<open>undefined\<close> is indexed
  or called. \<open>UndefinedTraversal\<close> is no error of the runtime: it marks the point
  from which Lua defines nothing about a traversal, because a key was added to the
  table being walked.
\<close>

datatype error = IndexUndefined | CallUndefined | UndefinedTraversal

text \<open>
  What a call does is recorded as a list of events, in order: the trace lines
  (\<open>print\<close>, only when \<open>verbose\<close>), the warnings (\<open>warn\<close>), the invocations of
  handlers (of a registration, with its id, or of a function responder, with its
  handle), and the calls of \<open>unbind\<close>, with the identifier given.
\<close>

datatype event =
    Print "string list"
  | Warn string
  | Call nat handler "rvalue list"
  | CallFunction string handler "rvalue list"
  | UnbindCall OperationExternalIdentifier

type_synonym 'a outcome = "(error + 'a) \<times> dispatcher \<times> event list"

fun table :: "group \<Rightarrow> dispatcher \<Rightarrow> ClassOperationMap" where
  "table BoundOperations d = boundOperations d"
| "table BoundPostOperations d = boundPostOperations d"
| "table IncomingEvents d = incomingEvents d"

fun set_table :: "group \<Rightarrow> ClassOperationMap \<Rightarrow> dispatcher \<Rightarrow> dispatcher" where
  "set_table BoundOperations t d = d\<lparr>boundOperations := t\<rparr>"
| "set_table BoundPostOperations t d = d\<lparr>boundPostOperations := t\<rparr>"
| "set_table IncomingEvents t d = d\<lparr>incomingEvents := t\<rparr>"

definition verbosePrint :: "string list \<Rightarrow> dispatcher \<Rightarrow> event list" where
  "verbosePrint message d = (if \<not> verbose d then [] else [Print (''DISPATCHER:'' # message)])"

definition new_BaseDispatcher :: "layout \<Rightarrow> bool \<Rightarrow> dispatcher \<times> event list" where
  "new_BaseDispatcher L isStudio =
     (let d = \<lparr>caseNumber = 0, boundOperations = Map.empty, boundPostOperations = Map.empty,
                verbose = isStudio, incomingEvents = Map.empty, incomingFunctions = Map.empty,
                tableLayout = L\<rparr>
      in (d, verbosePrint [''Finished initialization''] d))"

definition bindListen ::
  "string \<Rightarrow> group \<Rightarrow> handler \<Rightarrow> dispatcher \<Rightarrow> OperationExternalIdentifier \<times> dispatcher" where
  "bindListen h operations f d =
     (let n = caseNumber d;
          d1 = d\<lparr>caseNumber := n + 1\<rparr>;
          boundOps = (case table operations d1 h of None \<Rightarrow> [] | Some m \<Rightarrow> m)
      in (\<lparr>group = operations, handle = h, id' = n\<rparr>,
          set_table operations ((table operations d1)(h \<mapsto> map_set (tableLayout d) n f boundOps)) d1))"

definition quoted :: "string \<Rightarrow> string" where
  "quoted s = [CHR 0x22] @ s @ [CHR 0x22]"

definition listen ::
  "string \<Rightarrow> handler \<Rightarrow> dispatcher \<Rightarrow> OperationExternalIdentifier \<times> dispatcher \<times> event list" where
  "listen h f d =
     (let out = verbosePrint [''Bound '' @ quoted h] d;
          (i, d') = bindListen h BoundOperations f d
      in (i, d', out))"

definition listenPost ::
  "string \<Rightarrow> handler \<Rightarrow> dispatcher \<Rightarrow> OperationExternalIdentifier \<times> dispatcher \<times> event list" where
  "listenPost h f d =
     (let out = verbosePrint [''Bound '' @ quoted h @ '' to post''] d;
          (i, d') = bindListen h BoundPostOperations f d
      in (i, d', out))"

definition on ::
  "string \<Rightarrow> handler \<Rightarrow> dispatcher \<Rightarrow> OperationExternalIdentifier \<times> dispatcher \<times> event list" where
  "on h f d =
     (let out = verbosePrint [''Bound EVNT: '' @ quoted h] d;
          (i, d') = bindListen h IncomingEvents f d
      in (i, d', out))"

text \<open>
  \<open>unbind\<close> reads \<open>group[handle]\<close> and calls \<open>delete\<close> on it. When the table has no
  Map under the handle the read is \<open>undefined\<close> and the method call raises.
\<close>

definition unbind :: "OperationExternalIdentifier \<Rightarrow> dispatcher \<Rightarrow> (error + bool) \<times> dispatcher" where
  "unbind i d =
     (case table (group i) d (handle i) of
        None \<Rightarrow> (Inl IndexUndefined, d)
      | Some searchingMap \<Rightarrow>
          (let (b, m') = map_delete (id' i) searchingMap
           in (Inr b, set_table (group i) ((table (group i) d)(handle i \<mapsto> m')) d)))"

section \<open>Running a handler\<close>

text \<open>
  The calls a handler makes run in order against the dispatcher; a call that raises ends
  the handler, and what the earlier calls did stays done. A call of \<open>unbind\<close> is
  recorded with its identifier, whether it returns or raises.
\<close>

fun run_effect :: "effect \<Rightarrow> dispatcher \<Rightarrow> unit outcome" where
  "run_effect (DoListen h f) d = (case listen h f d of (i, d', out) \<Rightarrow> (Inr (), d', out))"
| "run_effect (DoListenPost h f) d = (case listenPost h f d of (i, d', out) \<Rightarrow> (Inr (), d', out))"
| "run_effect (DoOn h f) d = (case on h f d of (i, d', out) \<Rightarrow> (Inr (), d', out))"
| "run_effect (DoUnbind i) d =
     (case unbind i d of
        (Inl e, d') \<Rightarrow> (Inl e, d', [UnbindCall i])
      | (Inr b, d') \<Rightarrow> (Inr (), d', [UnbindCall i]))"

fun run_effects :: "effect list \<Rightarrow> dispatcher \<Rightarrow> unit outcome" where
  "run_effects [] d = (Inr (), d, [])"
| "run_effects (e # es) d =
     (case run_effect e d of
        (Inl err, d1, o1) \<Rightarrow> (Inl err, d1, o1)
      | (Inr u, d1, o1) \<Rightarrow> (case run_effects es d1 of (r, d2, o2) \<Rightarrow> (r, d2, o1 @ o2)))"

definition call_handler :: "nat \<Rightarrow> handler \<Rightarrow> rvalue list \<Rightarrow> dispatcher \<Rightarrow> unit outcome" where
  "call_handler k f args d =
     (case run_effects (body f) d of (r, d', out) \<Rightarrow> (r, d', Call k f args # out))"

section \<open>Walking a table while handlers change it\<close>

text \<open>
  \<open>dispatch\<close> (with \<open>pairs\<close>) and the server's \<open>handleEvent\<close> (with \<open>for ... of\<close> over
  the Map, which is the same traversal of the table) walk the table itself, not a copy,
  and call each handler inside the loop. \<open>iterate g h args i d\<close> is the loop standing at
  entry \<open>i\<close> of the table under \<open>h\<close> in table \<open>g\<close>; the table is read from the current
  dispatcher at every step, which is the same table object, since a table once stored
  under a handle is never replaced. A handler may empty entries of the table being
  walked (Lua allows assigning \<open>nil\<close> to a field during a traversal): the loop goes on
  and passes over them. A handler may not add a key to it: Lua leaves the behaviour
  of the traversal undefined from there on. \<open>calls_made es d\<close> are the calls of a handler
  that were made (up to the first that raises), \<open>adds_key g h e\<close> says that the call \<open>e\<close>
  assigns a key in the table under \<open>h\<close> in \<open>g\<close>. When the handler just invoked has made
  such a call the pass ends in \<open>UndefinedTraversal\<close>, and nothing is said about what a
  run does after that point.
\<close>

fun adds_key :: "group \<Rightarrow> string \<Rightarrow> effect \<Rightarrow> bool" where
  "adds_key g h (DoListen h' f) = (g = BoundOperations \<and> h' = h)"
| "adds_key g h (DoListenPost h' f) = (g = BoundPostOperations \<and> h' = h)"
| "adds_key g h (DoOn h' f) = (g = IncomingEvents \<and> h' = h)"
| "adds_key g h (DoUnbind i) = False"

fun calls_made :: "effect list \<Rightarrow> dispatcher \<Rightarrow> effect list" where
  "calls_made [] d = []"
| "calls_made (e # es) d =
     e # (case run_effect e d of
            (Inl err, d1, o1) \<Rightarrow> []
          | (Inr u, d1, o1) \<Rightarrow> calls_made es d1)"

definition emptied_only :: "OperationIdArray \<Rightarrow> OperationIdArray \<Rightarrow> bool" where
  "emptied_only m m1 \<longleftrightarrow> list_all2 (\<lambda>s s1. s1 = s \<or> s1 = None) m m1"

lemma emptied_only_length: "emptied_only m m1 \<Longrightarrow> length m1 = length m"
  by (simp add: emptied_only_def list_all2_lengthD)

lemma emptied_only_refl: "emptied_only m m"
  by (simp add: emptied_only_def list_all2_same)

lemma emptied_only_trans: "emptied_only a b \<Longrightarrow> emptied_only b c \<Longrightarrow> emptied_only a c"
  unfolding emptied_only_def list_all2_conv_all_nth by fastforce

lemma emptied_only_map_delete: "emptied_only m (snd (map_delete k m))"
  by (induction m rule: entries.induct) (auto simp: emptied_only_def case_prod_beta list_all2_same)

lemma table_set_table: "table g (set_table g' t d) = (if g = g' then t else table g d)"
  by (cases g; cases g') simp_all

lemma table_caseNumber_update: "table g (d\<lparr>caseNumber := n\<rparr>) = table g d"
  by (cases g) simp_all

lemma table_bindListen_other:
  assumes "bindListen h' g' f d = (i, d')" and "\<not> (g = g' \<and> h = h')"
  shows "table g d' h = table g d h"
  using assms by (auto simp: bindListen_def Let_def table_set_table table_caseNumber_update)

lemma table_unbind_emptied:
  assumes "unbind i d = (r, d')" and "table g d h = Some m"
  shows "\<exists>m1. table g d' h = Some m1 \<and> emptied_only m m1"
proof (cases "table (group i) d (handle i)")
  case None
  then show ?thesis using assms by (auto simp: unbind_def emptied_only_refl)
next
  case (Some mi)
  then have d': "d' = set_table (group i)
      ((table (group i) d)(handle i \<mapsto> snd (map_delete (id' i) mi))) d"
    using assms(1) by (simp add: unbind_def case_prod_beta)
  show ?thesis
  proof (cases "g = group i \<and> h = handle i")
    case True
    then show ?thesis
      using Some assms(2) emptied_only_map_delete[of m "id' i"] by (simp add: d' table_set_table)
  next
    case False
    then show ?thesis using assms(2) by (auto simp: d' table_set_table emptied_only_refl)
  qed
qed

lemma run_effect_emptied:
  assumes "run_effect e d = (r, d', out)" and "\<not> adds_key g h e" and "table g d h = Some m"
  shows "\<exists>m1. table g d' h = Some m1 \<and> emptied_only m m1"
proof (cases e)
  case (DoListen h' f)
  then have "table g d' h = table g d h"
    using assms(1,2) table_bindListen_other[of h' BoundOperations f d _ d' g h]
    by (auto simp: listen_def Let_def split: prod.splits)
  then show ?thesis using assms(3) by (simp add: emptied_only_refl)
next
  case (DoListenPost h' f)
  then have "table g d' h = table g d h"
    using assms(1,2) table_bindListen_other[of h' BoundPostOperations f d _ d' g h]
    by (auto simp: listenPost_def Let_def split: prod.splits)
  then show ?thesis using assms(3) by (simp add: emptied_only_refl)
next
  case (DoOn h' f)
  then have "table g d' h = table g d h"
    using assms(1,2) table_bindListen_other[of h' IncomingEvents f d _ d' g h]
    by (auto simp: on_def Let_def split: prod.splits)
  then show ?thesis using assms(3) by (simp add: emptied_only_refl)
next
  case (DoUnbind i)
  then obtain r1 where "unbind i d = (r1, d')"
    using assms(1) by (auto split: prod.splits sum.splits)
  then show ?thesis using assms(3) by (rule table_unbind_emptied)
qed

lemma run_effects_emptied:
  "run_effects es d = (r, d', out) \<Longrightarrow> \<not> list_ex (adds_key g h) (calls_made es d) \<Longrightarrow>
   table g d h = Some m \<Longrightarrow> \<exists>m1. table g d' h = Some m1 \<and> emptied_only m m1"
proof (induction es arbitrary: d r d' out m)
  case Nil
  then show ?case by (simp add: emptied_only_refl)
next
  case (Cons e es)
  obtain r1 d1 o1 where e: "run_effect e d = (r1, d1, o1)" by (cases "run_effect e d") auto
  have na: "\<not> adds_key g h e" using Cons.prems(2) by simp
  obtain m1 where m1: "table g d1 h = Some m1" "emptied_only m m1"
    using run_effect_emptied[OF e na Cons.prems(3)] by blast
  show ?case
  proof (cases r1)
    case (Inl err)
    with e m1 Cons.prems(1) show ?thesis by auto
  next
    case (Inr u)
    obtain r2 d2 o2 where es: "run_effects es d1 = (r2, d2, o2)" by (cases "run_effects es d1") auto
    have "\<not> list_ex (adds_key g h) (calls_made es d1)" using Cons.prems(2) e Inr by simp
    then obtain m2 where "table g d2 h = Some m2" "emptied_only m1 m2"
      using Cons.IH[OF es _ m1(1)] by blast
    moreover have "d' = d2" using e Inr es Cons.prems(1) by simp
    ultimately show ?thesis using emptied_only_trans[OF m1(2)] by auto
  qed
qed

lemma call_handler_emptied:
  assumes "call_handler k f args d = (r, d', out)"
    and "\<not> list_ex (adds_key g h) (calls_made (body f) d)" and "table g d h = Some m"
  shows "\<exists>m1. table g d' h = Some m1 \<and> emptied_only m m1"
proof -
  obtain r1 d1 o1 where b: "run_effects (body f) d = (r1, d1, o1)"
    by (cases "run_effects (body f) d") auto
  then have "d' = d1" using assms(1) by (simp add: call_handler_def)
  then show ?thesis using run_effects_emptied[OF b assms(2,3)] by simp
qed

lemma iterate_step_decreases:
  assumes "table g d h = Some m" "i < length m"
    and "call_handler k f args d = (r, d1, o1)"
    and "\<not> list_ex (adds_key g h) (calls_made (body f) d)"
  shows "(case table g d1 h of None \<Rightarrow> 0 | Some m1 \<Rightarrow> length m1 - Suc i) < length m - i"
proof -
  obtain m1 where "table g d1 h = Some m1" "emptied_only m m1"
    using call_handler_emptied[OF assms(3,4,1)] by blast
  then show ?thesis using assms(2) by (simp add: emptied_only_length)
qed

function iterate :: "group \<Rightarrow> string \<Rightarrow> rvalue list \<Rightarrow> nat \<Rightarrow> dispatcher \<Rightarrow> unit outcome" where
  "iterate g h args i d =
     (case table g d h of
        None \<Rightarrow> (Inr (), d, [])
      | Some m \<Rightarrow>
          if i < length m then
            (case m ! i of
               None \<Rightarrow> iterate g h args (Suc i) d
             | Some (k, f) \<Rightarrow>
                 (case call_handler k f args d of
                    (Inl err, d1, o1) \<Rightarrow> (Inl err, d1, o1)
                  | (Inr u, d1, o1) \<Rightarrow>
                      if list_ex (adds_key g h) (calls_made (body f) d)
                      then (Inl UndefinedTraversal, d1, o1)
                      else (case iterate g h args (Suc i) d1 of
                              (r, d2, o2) \<Rightarrow> (r, d2, o1 @ o2))))
          else (Inr (), d, []))"
  by pat_completeness auto
termination
proof (relation "measure (\<lambda>(g, h, args, i, d).
          case table g d h of None \<Rightarrow> 0 | Some m \<Rightarrow> length m - i)", goal_cases)
  case 1
  show ?case by simp
next
  case 2
  then show ?case by simp
next
  case 3
  then show ?case by simp (metis iterate_step_decreases)
qed

declare iterate.simps [simp del]

section \<open>dispatch\<close>

fun show_nat :: "nat \<Rightarrow> string" where
  "show_nat n =
     (if n < 10 then [''0123456789'' ! n]
      else show_nat (n div 10) @ [''0123456789'' ! (n mod 10)])"

declare show_nat.simps [simp del]

text \<open>
  \<open>dispatchQueue\<close> and \<open>postDispatchQueue\<close> are read before any handler runs: a
  table that a handler creates during the pass is not looked at by this pass.
\<close>

definition dispatch :: "string \<Rightarrow> rvalue list \<Rightarrow> dispatcher \<Rightarrow> unit outcome" where
  "dispatch h args d =
     (let dispatchQueue = boundOperations d h;
          postDispatchQueue = boundPostOperations d h;
          out = verbosePrint
            [''Queued '' @ quoted h @ '' with ''
              @ show_nat (case dispatchQueue of None \<Rightarrow> 0 | Some q \<Rightarrow> map_size q)
              @ (case postDispatchQueue of None \<Rightarrow> []
                 | Some q \<Rightarrow> '' (+'' @ show_nat (map_size q) @ '')'')
              @ '' bound.''] d
      in case (case dispatchQueue of None \<Rightarrow> (Inr (), d, [])
               | Some q \<Rightarrow> iterate BoundOperations h args 0 d) of
           (Inl err, d1, o1) \<Rightarrow> (Inl err, d1, out @ o1)
         | (Inr u, d1, o1) \<Rightarrow>
             (case (case postDispatchQueue of None \<Rightarrow> (Inr (), d1, [])
                    | Some q \<Rightarrow> iterate BoundPostOperations h args 0 d1) of
                (r, d2, o2) \<Rightarrow> (r, d2, out @ o1 @ o2)))"

section \<open>The server\<close>

definition new_BaseServerDispatcher :: "layout \<Rightarrow> bool \<Rightarrow> dispatcher \<times> event list" where
  "new_BaseServerDispatcher L isStudio =
     (case new_BaseDispatcher L isStudio of
        (d, out) \<Rightarrow> (d\<lparr>incomingEvents := Map.empty, incomingFunctions := Map.empty\<rparr>, out))"

definition verifyRemoteExistance :: "rvalue \<Rightarrow> (string \<rightharpoonup> 'a) \<Rightarrow> bool" where
  "verifyRemoteExistance key tbl =
     (case key of
        VStr s \<Rightarrow> (if tbl s = None then False else True)
      | _ \<Rightarrow> False)"

definition handleEvent :: "player \<Rightarrow> string \<Rightarrow> rvalue list \<Rightarrow> dispatcher \<Rightarrow> unit outcome" where
  "handleEvent p h args d =
     (case incomingEvents d h of
        None \<Rightarrow> (Inr (), d, [])
      | Some q \<Rightarrow> iterate IncomingEvents h (VPlayer p # args) 0 d)"

text \<open>
  After \<open>verifyRemoteExistance\<close> the handle is a string (the method is a type guard),
  so the last branch of the \<open>case\<close> is never taken.
\<close>

definition onEvent :: "player \<Rightarrow> rvalue \<Rightarrow> rvalue list \<Rightarrow> dispatcher \<Rightarrow> unit outcome" where
  "onEvent p boundHandle args d =
     (if \<not> verifyRemoteExistance boundHandle (incomingEvents d)
      then (Inr (), d, [Warn (Name p @ '' tried to fire a non-existant event!'')])
      else (case boundHandle of
              VStr h \<Rightarrow> handleEvent p h args d
            | _ \<Rightarrow> (Inr (), d, [])))"

definition handleFunction ::
  "player \<Rightarrow> string \<Rightarrow> rvalue list \<Rightarrow> dispatcher \<Rightarrow> rvalue option outcome" where
  "handleFunction p h args d =
     (case incomingFunctions d h of
        None \<Rightarrow> (Inl CallUndefined, d, [])
      | Some f \<Rightarrow>
          (case run_effects (body f) d of
             (Inl err, d', out) \<Rightarrow> (Inl err, d', CallFunction h f (VPlayer p # args) # out)
           | (Inr u, d', out) \<Rightarrow>
               (Inr (Some (ret f (VPlayer p # args))), d',
                CallFunction h f (VPlayer p # args) # out)))"

definition onFunction ::
  "player \<Rightarrow> rvalue \<Rightarrow> rvalue list \<Rightarrow> dispatcher \<Rightarrow> rvalue option outcome" where
  "onFunction p boundHandle args d =
     (if \<not> verifyRemoteExistance boundHandle (incomingFunctions d)
      then (Inr None, d, [Warn (Name p @ '' tried to fire a non-existant function!'')])
      else (case boundHandle of
              VStr h \<Rightarrow> handleFunction p h args d
            | _ \<Rightarrow> (Inr None, d, [])))"

text \<open>The method \<open>handle\<close> of the server is written \<open>handle'\<close>.\<close>

definition handle' :: "string \<Rightarrow> handler \<Rightarrow> dispatcher \<Rightarrow> dispatcher \<times> event list" where
  "handle' h f d =
     (d\<lparr>incomingFunctions := (incomingFunctions d)(h \<mapsto> f)\<rparr>,
      verbosePrint [''Bound FUNC: '' @ quoted h] d)"

section \<open>The client\<close>

text \<open>
  \<open>BaseClientDispatcher.handleEvent\<close> is the callback of \<open>OnClientEvent\<close>: it passes
  the handle and the arguments to \<open>dispatch\<close>. \<open>invoke\<close> calls
  \<open>RemoteFunction.InvokeServer\<close>; the engine runs the server's \<open>OnServerInvoke\<close>,
  which is \<open>onFunction\<close>, with the calling player put first, and hands its result back.
\<close>

definition client_handleEvent :: "string \<Rightarrow> rvalue list \<Rightarrow> dispatcher \<Rightarrow> unit outcome" where
  "client_handleEvent h args d = dispatch h args d"

definition invoke ::
  "player \<Rightarrow> string \<Rightarrow> rvalue list \<Rightarrow> dispatcher \<Rightarrow> rvalue option outcome" where
  "invoke p h args server = onFunction p (VStr h) args server"

section \<open>Sequences of calls\<close>

text \<open>
  A caller of the dispatcher makes one call after another and may catch what a call
  raises; \<open>exec\<close> runs such a sequence and collects the replies.
\<close>

datatype request =
    Listen string handler
  | ListenPost string handler
  | On string handler
  | Handle string handler
  | Unbind OperationExternalIdentifier
  | Dispatch string "rvalue list"
  | OnEvent player rvalue "rvalue list"
  | OnFunction player rvalue "rvalue list"
  | ClientEvent string "rvalue list"

datatype reply =
    Identifier OperationExternalIdentifier
  | Removed bool
  | Done
  | Returned "rvalue option"
  | Raised error

definition unit_reply :: "unit outcome \<Rightarrow> reply \<times> dispatcher \<times> event list" where
  "unit_reply x = (case x of (Inl err, d, out) \<Rightarrow> (Raised err, d, out) | (Inr u, d, out) \<Rightarrow> (Done, d, out))"

fun step :: "request \<Rightarrow> dispatcher \<Rightarrow> reply \<times> dispatcher \<times> event list" where
  "step (Listen h f) d = (case listen h f d of (i, d', out) \<Rightarrow> (Identifier i, d', out))"
| "step (ListenPost h f) d = (case listenPost h f d of (i, d', out) \<Rightarrow> (Identifier i, d', out))"
| "step (On h f) d = (case on h f d of (i, d', out) \<Rightarrow> (Identifier i, d', out))"
| "step (Handle h f) d = (case handle' h f d of (d', out) \<Rightarrow> (Done, d', out))"
| "step (Unbind i) d =
     (case unbind i d of
        (Inl err, d') \<Rightarrow> (Raised err, d', [UnbindCall i])
      | (Inr b, d') \<Rightarrow> (Removed b, d', [UnbindCall i]))"
| "step (Dispatch h args) d = unit_reply (dispatch h args d)"
| "step (OnEvent p k args) d = unit_reply (onEvent p k args d)"
| "step (OnFunction p k args) d =
     (case onFunction p k args d of
        (Inl err, d', out) \<Rightarrow> (Raised err, d', out)
      | (Inr v, d', out) \<Rightarrow> (Returned v, d', out))"
| "step (ClientEvent h args) d = unit_reply (client_handleEvent h args d)"

fun exec :: "request list \<Rightarrow> dispatcher \<Rightarrow> reply list \<times> dispatcher \<times> event list" where
  "exec [] d = ([], d, [])"
| "exec (c # cs) d =
     (case step c d of
        (r, d1, o1) \<Rightarrow> (case exec cs d1 of (rs, d2, o2) \<Rightarrow> (r # rs, d2, o1 @ o2)))"

section \<open>What a call of the dispatcher does to the outside\<close>

text \<open>
  \<open>invoked\<close> are the handler invocations among the events of a call, \<open>warnings\<close> the
  warnings.
\<close>

fun is_call :: "event \<Rightarrow> bool" where
  "is_call (Call k f args) = True"
| "is_call (CallFunction h f args) = True"
| "is_call (Print msg) = False"
| "is_call (Warn msg) = False"
| "is_call (UnbindCall i) = False"

fun is_warn :: "event \<Rightarrow> bool" where
  "is_warn (Warn msg) = True"
| "is_warn (Call k f args) = False"
| "is_warn (CallFunction h f args) = False"
| "is_warn (Print msg) = False"
| "is_warn (UnbindCall i) = False"

definition invoked :: "event list \<Rightarrow> event list" where
  "invoked out = filter is_call out"

definition warnings :: "event list \<Rightarrow> event list" where
  "warnings out = filter is_warn out"

text \<open>The ids of the identifiers among the replies of a sequence of calls.\<close>

fun issued :: "reply list \<Rightarrow> nat list" where
  "issued [] = []"
| "issued (Identifier i # rs) = id' i # issued rs"
| "issued (Removed b # rs) = issued rs"
| "issued (Done # rs) = issued rs"
| "issued (Returned v # rs) = issued rs"
| "issued (Raised err # rs) = issued rs"

lemma invoked_verbosePrint: "invoked (verbosePrint msg d) = []"
  by (simp add: invoked_def verbosePrint_def)

lemma warnings_verbosePrint: "warnings (verbosePrint msg d) = []"
  by (simp add: warnings_def verbosePrint_def)

lemma fst_new_BaseDispatcher:
  "fst (new_BaseDispatcher L v) =
     \<lparr>caseNumber = 0, boundOperations = Map.empty, boundPostOperations = Map.empty,
      verbose = v, incomingEvents = Map.empty, incomingFunctions = Map.empty,
      tableLayout = L\<rparr>"
  by (simp add: new_BaseDispatcher_def Let_def)

lemma fst_new_BaseServerDispatcher:
  "fst (new_BaseServerDispatcher L v) = fst (new_BaseDispatcher L v)"
  by (simp add: new_BaseServerDispatcher_def new_BaseDispatcher_def Let_def)

lemma dispatch_absent:
  assumes "boundOperations d h = None" "boundPostOperations d h = None"
  shows "dispatch h args d = (Inr (), d, verbosePrint [''Queued '' @ quoted h @ '' with '' @ show_nat 0 @ '' bound.''] d)"
  using assms by (simp add: dispatch_def)

section \<open>What every call preserves\<close>

text \<open>
  Every change of the dispatcher is made by \<open>bindListen\<close>, by \<open>unbind\<close> or by
  \<open>handle\<close>. A reflexive and transitive relation between the dispatcher before and
  after that holds across \<open>bindListen\<close> and \<open>unbind\<close> therefore holds across a
  handler, across a whole iteration and across every entry point.
\<close>

lemma run_effect_rel:
  assumes bl: "\<And>h g f d i d'. bindListen h g f d = (i, d') \<Longrightarrow> R d d'"
    and ub: "\<And>i d r d'. unbind i d = (r, d') \<Longrightarrow> R d d'"
    and run: "run_effect e d = (r, d', out)"
  shows "R d d'"
proof (cases e)
  case (DoListen h f)
  then show ?thesis using run bl[of h BoundOperations f d]
    by (auto simp: listen_def Let_def split: prod.splits)
next
  case (DoListenPost h f)
  then show ?thesis using run bl[of h BoundPostOperations f d]
    by (auto simp: listenPost_def Let_def split: prod.splits)
next
  case (DoOn h f)
  then show ?thesis using run bl[of h IncomingEvents f d]
    by (auto simp: on_def Let_def split: prod.splits)
next
  case (DoUnbind i)
  then show ?thesis using run ub[of i d]
    by (auto split: prod.splits sum.splits)
qed

lemma run_effects_rel:
  assumes refl: "\<And>d. R d d"
    and trans: "\<And>a b c. R a b \<Longrightarrow> R b c \<Longrightarrow> R a c"
    and bl: "\<And>h g f d i d'. bindListen h g f d = (i, d') \<Longrightarrow> R d d'"
    and ub: "\<And>i d r d'. unbind i d = (r, d') \<Longrightarrow> R d d'"
  shows "run_effects es d = (r, d', out) \<Longrightarrow> R d d'"
proof (induction es arbitrary: d r d' out)
  case Nil
  then show ?case using refl by simp
next
  case (Cons e es)
  obtain r1 d1 o1 where e: "run_effect e d = (r1, d1, o1)" by (cases "run_effect e d") auto
  have 1: "R d d1" using run_effect_rel[of R, OF bl ub e] .
  show ?case
  proof (cases r1)
    case (Inl err)
    with e 1 Cons.prems show ?thesis by simp
  next
    case (Inr u)
    obtain r2 d2 o2 where es: "run_effects es d1 = (r2, d2, o2)" by (cases "run_effects es d1") auto
    have "R d1 d2" using Cons.IH[OF es] .
    with 1 have "R d d2" by (rule trans)
    with e Inr es Cons.prems show ?thesis by simp
  qed
qed

lemma call_handler_rel:
  assumes refl: "\<And>d. R d d"
    and trans: "\<And>a b c. R a b \<Longrightarrow> R b c \<Longrightarrow> R a c"
    and bl: "\<And>h g f d i d'. bindListen h g f d = (i, d') \<Longrightarrow> R d d'"
    and ub: "\<And>i d r d'. unbind i d = (r, d') \<Longrightarrow> R d d'"
    and run: "call_handler k f args d = (r, d', out)"
  shows "R d d'"
proof -
  obtain r1 d1 o1 where b: "run_effects (body f) d = (r1, d1, o1)"
    by (cases "run_effects (body f) d") auto
  have "R d d1" using run_effects_rel[of R, OF refl trans bl ub b] .
  moreover have "d' = d1" using run b by (simp add: call_handler_def)
  ultimately show ?thesis by simp
qed

text \<open>The ways one step of the loop can go, and the induction that follows them.\<close>

lemma iterate_None: "table g d h = None \<Longrightarrow> iterate g h args i d = (Inr (), d, [])"
  by (simp add: iterate.simps)

lemma iterate_end:
  "table g d h = Some m \<Longrightarrow> \<not> i < length m \<Longrightarrow> iterate g h args i d = (Inr (), d, [])"
  by (simp add: iterate.simps)

lemma iterate_skip:
  "table g d h = Some m \<Longrightarrow> i < length m \<Longrightarrow> m ! i = None \<Longrightarrow>
   iterate g h args i d = iterate g h args (Suc i) d"
  by (simp add: iterate.simps[of g h args i])

lemma iterate_raise:
  "table g d h = Some m \<Longrightarrow> i < length m \<Longrightarrow> m ! i = Some (k, f) \<Longrightarrow>
   call_handler k f args d = (Inl err, d1, o1) \<Longrightarrow>
   iterate g h args i d = (Inl err, d1, o1)"
  by (simp add: iterate.simps[of g h args i])

lemma iterate_undefined:
  "table g d h = Some m \<Longrightarrow> i < length m \<Longrightarrow> m ! i = Some (k, f) \<Longrightarrow>
   call_handler k f args d = (Inr u, d1, o1) \<Longrightarrow>
   list_ex (adds_key g h) (calls_made (body f) d) \<Longrightarrow>
   iterate g h args i d = (Inl UndefinedTraversal, d1, o1)"
  by (simp add: iterate.simps[of g h args i])

lemma iterate_next:
  "table g d h = Some m \<Longrightarrow> i < length m \<Longrightarrow> m ! i = Some (k, f) \<Longrightarrow>
   call_handler k f args d = (Inr u, d1, o1) \<Longrightarrow>
   \<not> list_ex (adds_key g h) (calls_made (body f) d) \<Longrightarrow>
   iterate g h args (Suc i) d1 = (r, d2, o2) \<Longrightarrow>
   iterate g h args i d = (r, d2, o1 @ o2)"
  by (simp add: iterate.simps[of g h args i])

lemma iterate_induct [case_names None End Skip Stop Next]:
  assumes none: "\<And>g h args i d. table g d h = None \<Longrightarrow> P g h args i d"
    and endc: "\<And>g h args i d m. table g d h = Some m \<Longrightarrow> \<not> i < length m \<Longrightarrow> P g h args i d"
    and skip: "\<And>g h args i d m. table g d h = Some m \<Longrightarrow> i < length m \<Longrightarrow> m ! i = None \<Longrightarrow>
                 P g h args (Suc i) d \<Longrightarrow> P g h args i d"
    and stop: "\<And>g h args i d m k f r1 err d1 o1. table g d h = Some m \<Longrightarrow> i < length m \<Longrightarrow>
                 m ! i = Some (k, f) \<Longrightarrow> call_handler k f args d = (r1, d1, o1) \<Longrightarrow>
                 iterate g h args i d = (Inl err, d1, o1) \<Longrightarrow> P g h args i d"
    and nextc: "\<And>g h args i d m k f d1 o1 m1. table g d h = Some m \<Longrightarrow> i < length m \<Longrightarrow>
                 m ! i = Some (k, f) \<Longrightarrow> call_handler k f args d = (Inr (), d1, o1) \<Longrightarrow>
                 \<not> list_ex (adds_key g h) (calls_made (body f) d) \<Longrightarrow>
                 table g d1 h = Some m1 \<Longrightarrow> emptied_only m m1 \<Longrightarrow>
                 P g h args (Suc i) d1 \<Longrightarrow> P g h args i d"
  shows "P g h args i d"
proof (induction g h args i d rule: iterate.induct)
  case (1 g h args i d)
  show ?case
  proof (cases "table g d h")
    case None
    then show ?thesis by (rule none)
  next
    case tm: (Some m)
    show ?thesis
    proof (cases "i < length m")
      case False
      with tm show ?thesis by (rule endc)
    next
      case True
      show ?thesis
      proof (cases "m ! i")
        case None
        from tm True None "1.IH"(1)[OF tm True None] show ?thesis by (rule skip)
      next
        case (Some kf)
        obtain k f where kf: "kf = (k, f)" by (cases kf) auto
        obtain r1 d1 o1 where c: "call_handler k f args d = (r1, d1, o1)"
          by (cases "call_handler k f args d") auto
        have s: "m ! i = Some (k, f)" using Some kf by simp
        show ?thesis
        proof (cases r1)
          case (Inl err)
          with c have "iterate g h args i d = (Inl err, d1, o1)"
            using iterate_raise[OF tm True s] by simp
          with tm True s c show ?thesis by (rule stop)
        next
          case (Inr u)
          then have r1: "r1 = Inr ()" by simp
          have c': "call_handler k f args d = (Inr (), d1, o1)" using c r1 by simp
          show ?thesis
          proof (cases "list_ex (adds_key g h) (calls_made (body f) d)")
            case True
            have "iterate g h args i d = (Inl UndefinedTraversal, d1, o1)"
              using iterate_undefined[OF tm \<open>i < length m\<close> s c' True] .
            with tm \<open>i < length m\<close> s c show ?thesis by (rule stop)
          next
            case False
            obtain m1 where m1: "table g d1 h = Some m1" "emptied_only m m1"
              using call_handler_emptied[OF c' False tm] by blast
            have "P g h args (Suc i) d1"
              using "1.IH"(2)[OF tm True Some kf[symmetric] c[symmetric] r1 refl False] .
            with tm True s c' False m1 show ?thesis by (rule nextc)
          qed
        qed
      qed
    qed
  qed
qed

lemma iterate_rel:
  assumes refl: "\<And>d. R d d"
    and trans: "\<And>a b c. R a b \<Longrightarrow> R b c \<Longrightarrow> R a c"
    and bl: "\<And>h g f d i d'. bindListen h g f d = (i, d') \<Longrightarrow> R d d'"
    and ub: "\<And>i d r d'. unbind i d = (r, d') \<Longrightarrow> R d d'"
  shows "iterate g h args i d = (r, d', out) \<Longrightarrow> R d d'"
proof (induction g h args i d arbitrary: r d' out rule: iterate_induct)
  case (None g h args i d)
  then show ?case using refl by (simp add: iterate_None)
next
  case (End g h args i d m)
  then show ?case using refl by (simp add: iterate_end)
next
  case (Skip g h args i d m)
  then show ?case by (simp add: iterate_skip)
next
  case (Stop g h args i d m k f r1 err d1 o1)
  have "R d d1" using call_handler_rel[of R, OF refl trans bl ub Stop(4)] .
  moreover have "d' = d1" using Stop(5) Stop.prems by simp
  ultimately show ?case by simp
next
  case (Next g h args i d m k f d1 o1 m1)
  obtain r2 d2 o2 where it: "iterate g h args (Suc i) d1 = (r2, d2, o2)"
    by (cases "iterate g h args (Suc i) d1") auto
  have "R d d1" using call_handler_rel[of R, OF refl trans bl ub Next(4)] .
  moreover have "R d1 d2" using Next.IH[OF it] .
  ultimately have "R d d2" by (rule trans)
  moreover have "d' = d2" using iterate_next[OF Next(1-5) it] Next.prems by simp
  ultimately show ?case by simp
qed

lemma dispatch_rel:
  assumes refl: "\<And>d. R d d"
    and trans: "\<And>a b c. R a b \<Longrightarrow> R b c \<Longrightarrow> R a c"
    and bl: "\<And>h g f d i d'. bindListen h g f d = (i, d') \<Longrightarrow> R d d'"
    and ub: "\<And>i d r d'. unbind i d = (r, d') \<Longrightarrow> R d d'"
    and run: "dispatch h args d = (r, d', out)"
  shows "R d d'"
proof -
  define first where "first = (case boundOperations d h of None \<Rightarrow> (Inr (), d, [])
                               | Some q \<Rightarrow> iterate BoundOperations h args 0 d)"
  obtain r1 d1 o1 where f: "first = (r1, d1, o1)" by (cases first) auto
  have 1: "R d d1"
  proof (cases "boundOperations d h")
    case None
    with f show ?thesis using refl by (simp add: first_def)
  next
    case (Some q)
    with f have it: "iterate BoundOperations h args 0 d = (r1, d1, o1)" by (simp add: first_def)
    show ?thesis using iterate_rel[of R, OF refl trans bl ub it] .
  qed
  show ?thesis
  proof (cases r1)
    case (Inl err)
    with f run have "d' = d1" by (simp add: dispatch_def first_def Let_def)
    with 1 show ?thesis by simp
  next
    case (Inr u)
    define second where "second = (case boundPostOperations d h of None \<Rightarrow> (Inr (), d1, [])
                                   | Some q \<Rightarrow> iterate BoundPostOperations h args 0 d1)"
    obtain r2 d2 o2 where s: "second = (r2, d2, o2)" by (cases second) auto
    have 2: "R d1 d2"
    proof (cases "boundPostOperations d h")
      case None
      with s show ?thesis using refl by (simp add: second_def)
    next
      case (Some q)
      with s have it: "iterate BoundPostOperations h args 0 d1 = (r2, d2, o2)" by (simp add: second_def)
      show ?thesis using iterate_rel[of R, OF refl trans bl ub it] .
    qed
    have "d' = d2" using f Inr s run by (simp add: dispatch_def first_def second_def Let_def)
    with trans[OF 1 2] show ?thesis by simp
  qed
qed

lemma onEvent_rel:
  assumes refl: "\<And>d. R d d"
    and trans: "\<And>a b c. R a b \<Longrightarrow> R b c \<Longrightarrow> R a c"
    and bl: "\<And>h g f d i d'. bindListen h g f d = (i, d') \<Longrightarrow> R d d'"
    and ub: "\<And>i d r d'. unbind i d = (r, d') \<Longrightarrow> R d d'"
    and run: "onEvent p key args d = (r, d', out)"
  shows "R d d'"
proof (cases "verifyRemoteExistance key (incomingEvents d)")
  case False
  with run show ?thesis using refl by (simp add: onEvent_def)
next
  case True
  then obtain h where key: "key = VStr h" and q: "incomingEvents d h \<noteq> None"
    by (auto simp: verifyRemoteExistance_def split: rvalue.splits if_splits)
  with True run have it: "iterate IncomingEvents h (VPlayer p # args) 0 d = (r, d', out)"
    by (auto simp: onEvent_def handleEvent_def)
  show ?thesis using iterate_rel[of R, OF refl trans bl ub it] .
qed

lemma onFunction_rel:
  assumes refl: "\<And>d. R d d"
    and trans: "\<And>a b c. R a b \<Longrightarrow> R b c \<Longrightarrow> R a c"
    and bl: "\<And>h g f d i d'. bindListen h g f d = (i, d') \<Longrightarrow> R d d'"
    and ub: "\<And>i d r d'. unbind i d = (r, d') \<Longrightarrow> R d d'"
    and run: "onFunction p key args d = (r, d', out)"
  shows "R d d'"
proof (cases "verifyRemoteExistance key (incomingFunctions d)")
  case False
  with run show ?thesis using refl by (simp add: onFunction_def)
next
  case True
  then obtain h f where key: "key = VStr h" and q: "incomingFunctions d h = Some f"
    by (auto simp: verifyRemoteExistance_def split: rvalue.splits if_splits)
  obtain r1 d1 o1 where b: "run_effects (body f) d = (r1, d1, o1)"
    by (cases "run_effects (body f) d") auto
  have "R d d1" using run_effects_rel[of R, OF refl trans bl ub b] .
  moreover have "d' = d1"
    using True key q b run by (cases r1) (auto simp: onFunction_def handleFunction_def)
  ultimately show ?thesis by simp
qed

lemma step_rel:
  assumes refl: "\<And>d. R d d"
    and trans: "\<And>a b c. R a b \<Longrightarrow> R b c \<Longrightarrow> R a c"
    and bl: "\<And>h g f d i d'. bindListen h g f d = (i, d') \<Longrightarrow> R d d'"
    and ub: "\<And>i d r d'. unbind i d = (r, d') \<Longrightarrow> R d d'"
    and hd: "\<And>h f. c = Handle h f \<Longrightarrow> R d (fst (handle' h f d))"
    and run: "step c d = (r, d', out)"
  shows "R d d'"
proof (cases c)
  case (Listen h f)
  then show ?thesis using run bl[of h BoundOperations f d]
    by (auto simp: listen_def Let_def split: prod.splits)
next
  case (ListenPost h f)
  then show ?thesis using run bl[of h BoundPostOperations f d]
    by (auto simp: listenPost_def Let_def split: prod.splits)
next
  case (On h f)
  then show ?thesis using run bl[of h IncomingEvents f d]
    by (auto simp: on_def Let_def split: prod.splits)
next
  case (Handle h f)
  then show ?thesis using run hd[of h f] by (auto split: prod.splits)
next
  case (Unbind i)
  then show ?thesis using run ub[of i d] by (auto split: prod.splits sum.splits)
next
  case (Dispatch h args)
  obtain r1 d1 o1 where x: "dispatch h args d = (r1, d1, o1)" by (cases "dispatch h args d") auto
  have "R d d1" using dispatch_rel[of R, OF refl trans bl ub x] .
  moreover have "d' = d1" using Dispatch run x by (cases r1) (auto simp: unit_reply_def)
  ultimately show ?thesis by simp
next
  case (OnEvent p k args)
  obtain r1 d1 o1 where x: "onEvent p k args d = (r1, d1, o1)" by (cases "onEvent p k args d") auto
  have "R d d1" using onEvent_rel[of R, OF refl trans bl ub x] .
  moreover have "d' = d1" using OnEvent run x by (cases r1) (auto simp: unit_reply_def)
  ultimately show ?thesis by simp
next
  case (OnFunction p k args)
  obtain r1 d1 o1 where x: "onFunction p k args d = (r1, d1, o1)" by (cases "onFunction p k args d") auto
  have "R d d1" using onFunction_rel[of R, OF refl trans bl ub x] .
  moreover have "d' = d1" using OnFunction run x by (cases r1) auto
  ultimately show ?thesis by simp
next
  case (ClientEvent h args)
  obtain r1 d1 o1 where x: "dispatch h args d = (r1, d1, o1)" by (cases "dispatch h args d") auto
  have "R d d1" using dispatch_rel[of R, OF refl trans bl ub x] .
  moreover have "d' = d1"
    using ClientEvent run x by (cases r1) (auto simp: unit_reply_def client_handleEvent_def)
  ultimately show ?thesis by simp
qed

lemma exec_rel:
  assumes refl: "\<And>d. R d d"
    and trans: "\<And>a b c. R a b \<Longrightarrow> R b c \<Longrightarrow> R a c"
    and bl: "\<And>h g f d i d'. bindListen h g f d = (i, d') \<Longrightarrow> R d d'"
    and ub: "\<And>i d r d'. unbind i d = (r, d') \<Longrightarrow> R d d'"
    and hd: "\<And>h f d. Handle h f \<in> set cs \<Longrightarrow> R d (fst (handle' h f d))"
  shows "exec cs d = (rs, d', out) \<Longrightarrow> R d d'"
  using hd
proof (induction cs arbitrary: d rs d' out)
  case Nil
  then show ?case using refl by simp
next
  case (Cons c cs)
  obtain r1 d1 o1 where x: "step c d = (r1, d1, o1)" by (cases "step c d") auto
  obtain rs2 d2 o2 where y: "exec cs d1 = (rs2, d2, o2)" by (cases "exec cs d1") auto
  have "R d d1"
    using step_rel[of R c d, OF refl trans bl ub _ x] Cons.prems(2) by simp
  moreover have "R d1 d2" using Cons.IH[OF y] Cons.prems(2) by simp
  ultimately have "R d d2" by (rule trans)
  moreover have "d' = d2" using x y Cons.prems(1) by simp
  ultimately show ?case by simp
qed


section \<open>What the three writers do\<close>

lemma set_table_fields:
  "caseNumber (set_table g t d) = caseNumber d"
  "incomingFunctions (set_table g t d) = incomingFunctions d"
  "verbose (set_table g t d) = verbose d"
  "tableLayout (set_table g t d) = tableLayout d"
  by (cases g; simp)+

lemma bindListen_result:
  assumes "bindListen h g f d = (i, d')"
  shows "i = \<lparr>group = g, handle = h, id' = caseNumber d\<rparr>"
    and "caseNumber d' = Suc (caseNumber d)"
    and "incomingFunctions d' = incomingFunctions d"
    and "verbose d' = verbose d"
    and "table g' d' h' =
           (if g' = g \<and> h' = h
            then Some (map_set (tableLayout d) (caseNumber d) f
                        (case table g d h of None \<Rightarrow> [] | Some m \<Rightarrow> m))
            else table g' d h')"
    and "tableLayout d' = tableLayout d"
  using assms
  by (auto simp: bindListen_def Let_def set_table_fields table_set_table table_caseNumber_update)

lemma unbind_result:
  assumes "unbind i d = (r, d')"
  shows "caseNumber d' = caseNumber d"
    and "incomingFunctions d' = incomingFunctions d"
    and "verbose d' = verbose d"
    and "table g d' h =
           (if g = group i \<and> h = handle i
            then map_option (\<lambda>m. snd (map_delete (id' i) m)) (table g d h)
            else table g d h)"
    and "r = (case table (group i) d (handle i) of
                None \<Rightarrow> Inl IndexUndefined
              | Some m \<Rightarrow> Inr (fst (map_delete (id' i) m)))"
    and "tableLayout d' = tableLayout d"
  using assms
  by (auto simp: unbind_def Let_def set_table_fields table_set_table split: option.splits prod.splits)

lemma handle'_result:
  "caseNumber (fst (handle' h f d)) = caseNumber d"
  "verbose (fst (handle' h f d)) = verbose d"
  "table g (fst (handle' h f d)) = table g d"
  "incomingFunctions (fst (handle' h f d)) = (incomingFunctions d)(h \<mapsto> f)"
  "tableLayout (fst (handle' h f d)) = tableLayout d"
  by (cases g; simp add: handle'_def)+

lemma step_Identifier:
  assumes "step c d = (Identifier i, d', out)"
  shows "\<exists>h g f. bindListen h g f d = (i, d')"
  using assms
  by (cases c) (auto simp: listen_def listenPost_def on_def Let_def unit_reply_def
      split: prod.splits sum.splits)

section \<open>The registrations a dispatcher holds\<close>

text \<open>
  \<open>registered d g h\<close> are the registrations of table \<open>g\<close> under handle \<open>h\<close>, with their
  ids, in the order a traversal meets them.
\<close>

definition registered :: "dispatcher \<Rightarrow> group \<Rightarrow> string \<Rightarrow> (nat \<times> handler) list" where
  "registered d g h = (case table g d h of None \<Rightarrow> [] | Some m \<Rightarrow> entries m)"

definition ids :: "dispatcher \<Rightarrow> group \<Rightarrow> string \<Rightarrow> nat list" where
  "ids d g h = map fst (registered d g h)"

text \<open>
  In every dispatcher the calls can build, no id stands twice in a table, all ids are
  below \<open>caseNumber\<close>, and no id stands in two tables.
\<close>

definition well_formed :: "dispatcher \<Rightarrow> bool" where
  "well_formed d \<longleftrightarrow>
     (\<forall>g h. distinct (ids d g h))
     \<and> (\<forall>g h k. k \<in> set (ids d g h) \<longrightarrow> k < caseNumber d)
     \<and> (\<forall>g h g' h' k. k \<in> set (ids d g h) \<longrightarrow> k \<in> set (ids d g' h') \<longrightarrow> g = g' \<and> h = h')"

lemma map_set_appending:
  "map_set appending k v m =
     (if k \<in> fst ` set (entries m) then map_replace k v m else m @ [Some (k, v)])"
  by (simp add: map_set_def appending.rep_eq)












lemma well_formed_bound: "well_formed d \<Longrightarrow> k \<in> set (ids d g h) \<Longrightarrow> k < caseNumber d"
  unfolding well_formed_def by blast











section \<open>The counter and the tables only grow\<close>

lemma caseNumber_exec:
  assumes "exec cs d = (rs, d', out)"
  shows "caseNumber d \<le> caseNumber d'"
proof -
  define R where "R = (\<lambda>(a::dispatcher) (b::dispatcher). caseNumber a \<le> caseNumber b)"
  have "R d d'"
  proof (rule exec_rel[of R, OF _ _ _ _ _ assms])
    show "\<And>d. R d d" by (simp add: R_def)
    show "\<And>a b c. R a b \<Longrightarrow> R b c \<Longrightarrow> R a c" by (simp add: R_def)
    show "\<And>h g f d i d'. bindListen h g f d = (i, d') \<Longrightarrow> R d d'"
      by (simp add: R_def bindListen_result(2))
    show "\<And>i d r d'. unbind i d = (r, d') \<Longrightarrow> R d d'"
      by (simp add: R_def unbind_result(1))
    show "\<And>h f d. Handle h f \<in> set cs \<Longrightarrow> R d (fst (handle' h f d))"
      by (simp add: R_def handle'_result)
  qed
  then show ?thesis by (simp add: R_def)
qed

lemma exec_single: "exec [c] d = (case step c d of (r, d1, o1) \<Rightarrow> ([r], d1, o1))"
  by (simp split: prod.splits)

lemma caseNumber_step:
  assumes "step c d = (r, d', out)"
  shows "caseNumber d \<le> caseNumber d'"
  using caseNumber_exec[of "[c]" d "[r]" d' out] assms by (simp add: exec_single)

lemma table_kept_exec:
  assumes "exec cs d = (rs, d', out)" and "table g d h \<noteq> None"
  shows "table g d' h \<noteq> None"
proof -
  define R where "R = (\<lambda>(a::dispatcher) (b::dispatcher). table g a h \<noteq> None \<longrightarrow> table g b h \<noteq> None)"
  have "R d d'"
  proof (rule exec_rel[of R, OF _ _ _ _ _ assms(1)])
    show "\<And>d. R d d" by (simp add: R_def)
    show "\<And>a b c. R a b \<Longrightarrow> R b c \<Longrightarrow> R a c" by (simp add: R_def)
    show "\<And>h g f d i d'. bindListen h g f d = (i, d') \<Longrightarrow> R d d'"
      by (simp add: R_def bindListen_result(5))
    show "\<And>i d r d'. unbind i d = (r, d') \<Longrightarrow> R d d'"
      by (auto simp: R_def unbind_result(4))
    show "\<And>h f d. Handle h f \<in> set cs \<Longrightarrow> R d (fst (handle' h f d))"
      by (simp add: R_def handle'_result)
  qed
  with assms(2) show ?thesis by (simp add: R_def)
qed









section \<open>Handlers that leave the dispatcher alone\<close>

text \<open>
  A handler with an empty \<open>body\<close> makes no call into the dispatcher while it runs.
  Over a table of such handlers the loop invokes every entry that is not emptied, in
  the order the traversal meets them, and the dispatcher comes out as it went in.
\<close>

definition called :: "rvalue list \<Rightarrow> (nat \<times> handler) list \<Rightarrow> event list" where
  "called args regs = map (\<lambda>(k, f). Call k f args) regs"



lemma warnings_called: "warnings (called args regs) = []"
  by (induction regs) (auto simp: called_def warnings_def)







section \<open>What a sequence of subscriptions leaves in the tables\<close>

text \<open>
  \<open>target c\<close> is the table, handle and handler of a subscribe call. \<open>subscribed g h n cs\<close>
  lists, in the order of the calls \<open>cs\<close>, the handlers subscribed under \<open>h\<close> in table
  \<open>g\<close>, each with its place in the sequence counted from \<open>n\<close>.
\<close>

fun target :: "request \<Rightarrow> (group \<times> string \<times> handler) option" where
  "target (Listen h f) = Some (BoundOperations, h, f)"
| "target (ListenPost h f) = Some (BoundPostOperations, h, f)"
| "target (On h f) = Some (IncomingEvents, h, f)"
| "target (Handle h f) = None"
| "target (Unbind i) = None"
| "target (Dispatch h args) = None"
| "target (OnEvent p k args) = None"
| "target (OnFunction p k args) = None"
| "target (ClientEvent h args) = None"

fun subscribed :: "group \<Rightarrow> string \<Rightarrow> nat \<Rightarrow> request list \<Rightarrow> (nat \<times> handler) list" where
  "subscribed g h n [] = []"
| "subscribed g h n (c # cs) =
     (case target c of
        None \<Rightarrow> subscribed g h n cs
      | Some (g', h', f) \<Rightarrow>
          (if g' = g \<and> h' = h then [(n, f)] else []) @ subscribed g h (Suc n) cs)"

lemma step_target:
  assumes "target c = Some (g, h, f)"
  shows "\<exists>i out. step c d = (Identifier i, snd (bindListen h g f d), out)
                 \<and> bindListen h g f d = (i, snd (bindListen h g f d))"
  using assms
  by (cases c) (auto simp: listen_def listenPost_def on_def Let_def split: prod.splits)



lemma table_exec_subscriptions:
  assumes "\<forall>c \<in> set cs. target c \<noteq> None" and "exec cs d = (rs, d', out)"
  shows "table g d' h = None \<longleftrightarrow> table g d h = None \<and> subscribed g h n cs = []"
  using assms
proof (induction cs arbitrary: d rs d' out n)
  case Nil
  then show ?case by simp
next
  case (Cons c cs)
  obtain g' h' f where t: "target c = Some (g', h', f)"
    using Cons.prems(1) by (cases "target c") auto
  obtain i o1 d1 where st: "step c d = (Identifier i, d1, o1)" and bl: "bindListen h' g' f d = (i, d1)"
    using step_target[OF t, of d] by blast
  obtain rs2 d2 o2 where y: "exec cs d1 = (rs2, d2, o2)" by (cases "exec cs d1") auto
  have d': "d' = d2" using st y Cons.prems(2) by simp
  have ih: "table g d2 h = None \<longleftrightarrow> table g d1 h = None \<and> subscribed g h (Suc n) cs = []"
    using Cons.IH[OF _ y] Cons.prems(1) by simp
  have "table g d1 h = None \<longleftrightarrow> table g d h = None \<and> \<not> (g = g' \<and> h = h')"
    using bindListen_result(5)[OF bl, of g h] by auto
  with ih show ?case using t by (auto simp: d')
qed

section \<open>What handlers and loops emit\<close>

text \<open>\<open>quiet\<close>: no handler is invoked and no warning is made.\<close>

definition quiet :: "event list \<Rightarrow> bool" where
  "quiet out \<longleftrightarrow> (\<forall>ev \<in> set out. \<not> is_call ev \<and> \<not> is_warn ev)"

lemma quiet_simps:
  "quiet []"
  "quiet (verbosePrint msg d)"
  "quiet [UnbindCall i]"
  "quiet (xs @ ys) \<longleftrightarrow> quiet xs \<and> quiet ys"
  by (auto simp: quiet_def verbosePrint_def)

lemma quiet_invoked_warnings: "quiet out \<Longrightarrow> invoked out = [] \<and> warnings out = []"
  by (auto simp: quiet_def invoked_def warnings_def filter_empty_conv)

lemma run_effect_quiet:
  assumes "run_effect e d = (r, d', out)"
  shows "quiet out"
  using assms
  by (cases e)
    (auto simp: listen_def listenPost_def on_def Let_def quiet_simps
      split: prod.splits sum.splits)

lemma run_effects_quiet:
  "run_effects es d = (r, d', out) \<Longrightarrow> quiet out"
proof (induction es arbitrary: d r d' out)
  case Nil
  then show ?case by (simp add: quiet_simps)
next
  case (Cons e es)
  obtain r1 d1 o1 where e: "run_effect e d = (r1, d1, o1)" by (cases "run_effect e d") auto
  have 1: "quiet o1" using run_effect_quiet[OF e] .
  show ?case
  proof (cases r1)
    case (Inl err)
    with e 1 Cons.prems show ?thesis by simp
  next
    case (Inr u)
    obtain r2 d2 o2 where es: "run_effects es d1 = (r2, d2, o2)" by (cases "run_effects es d1") auto
    have "quiet o2" using Cons.IH[OF es] .
    with 1 e Inr es Cons.prems show ?thesis by (auto simp: quiet_simps)
  qed
qed

lemma warnings_append: "warnings (xs @ ys) = warnings xs @ warnings ys"
  by (simp add: warnings_def)

lemma call_handler_events:
  assumes "call_handler k f args d = (r, d', out)"
  shows "\<exists>ps. out = Call k f args # ps \<and> quiet ps"
proof -
  obtain r1 d1 o1 where b: "run_effects (body f) d = (r1, d1, o1)"
    by (cases "run_effects (body f) d") auto
  then have "out = Call k f args # o1" using assms by (simp add: call_handler_def)
  then show ?thesis using run_effects_quiet[OF b] by simp
qed

lemma iterate_no_warning:
  "iterate g h args i d = (r, d', out) \<Longrightarrow> warnings out = []"
proof (induction g h args i d arbitrary: r d' out rule: iterate_induct)
  case (None g h args i d)
  then show ?case by (simp add: iterate_None warnings_def)
next
  case (End g h args i d m)
  then show ?case by (simp add: iterate_end warnings_def)
next
  case (Skip g h args i d m)
  then show ?case by (simp add: iterate_skip)
next
  case (Stop g h args i d m k f r1 err d1 o1)
  obtain ps where "o1 = Call k f args # ps" "quiet ps"
    using call_handler_events[OF Stop(4)] by blast
  moreover have "out = o1" using Stop(5) Stop.prems by simp
  ultimately show ?case using quiet_invoked_warnings[of ps] by (simp add: warnings_def)
next
  case (Next g h args i d m k f d1 o1 m1)
  obtain r2 d2 o2 where it: "iterate g h args (Suc i) d1 = (r2, d2, o2)"
    by (cases "iterate g h args (Suc i) d1") auto
  obtain ps where "o1 = Call k f args # ps" "quiet ps"
    using call_handler_events[OF Next(4)] by blast
  moreover have "out = o1 @ o2" using iterate_next[OF Next(1-5) it] Next.prems by simp
  moreover have "warnings o2 = []" using Next.IH[OF it] .
  ultimately show ?case using quiet_invoked_warnings[of ps] by (simp add: warnings_def)
qed

lemma dispatch_no_warning: "warnings (snd (snd (dispatch h args d))) = []"
proof -
  define first where "first = (case boundOperations d h of None \<Rightarrow> (Inr (), d, [])
                               | Some q \<Rightarrow> iterate BoundOperations h args 0 d)"
  obtain r1 d1 o1 where f: "first = (r1, d1, o1)" by (cases first) auto
  have 1: "warnings o1 = []"
  proof (cases "boundOperations d h")
    case None
    with f show ?thesis by (simp add: first_def warnings_def)
  next
    case (Some q)
    with f have "iterate BoundOperations h args 0 d = (r1, d1, o1)" by (simp add: first_def)
    then show ?thesis by (rule iterate_no_warning)
  qed
  show ?thesis
  proof (cases r1)
    case (Inl err)
    with f 1 show ?thesis
      by (simp add: dispatch_def first_def[symmetric] Let_def warnings_append warnings_verbosePrint)
  next
    case (Inr u)
    define second where "second = (case boundPostOperations d h of None \<Rightarrow> (Inr (), d1, [])
                                   | Some q \<Rightarrow> iterate BoundPostOperations h args 0 d1)"
    obtain r2 d2 o2 where s: "second = (r2, d2, o2)" by (cases second) auto
    have 2: "warnings o2 = []"
    proof (cases "boundPostOperations d h")
      case None
      with s show ?thesis by (simp add: second_def warnings_def)
    next
      case (Some q)
      with s have "iterate BoundPostOperations h args 0 d1 = (r2, d2, o2)" by (simp add: second_def)
      then show ?thesis by (rule iterate_no_warning)
    qed
    show ?thesis
      using f Inr s 1 2
      by (simp add: dispatch_def first_def[symmetric] second_def[symmetric] Let_def
          warnings_append warnings_verbosePrint)
  qed
qed


section \<open>A pass over a table that changes under it\<close>






























section \<open>A registration stays until it is unbound\<close>















section \<open>Dispatching a handle that was never bound\<close>

text \<open>
  C8. When the handle is a key of neither \<open>boundOperations\<close> nor
  \<open>boundPostOperations\<close>, \<open>dispatch\<close> returns without raising, leaves the dispatcher
  as it was and invokes no handler; it emits no warning, and nothing at all unless
  the dispatcher is verbose (then the one trace line).
\<close>

theorem dispatch_absent_handle_noop:
  assumes "boundOperations d h = None" and "boundPostOperations d h = None"
  shows "\<exists>out. dispatch h args d = (Inr (), d, out) \<and> invoked out = [] \<and> warnings out = []
           \<and> (\<not> verbose d \<longrightarrow> out = [])"
proof -
  let ?out = "verbosePrint [''Queued '' @ quoted h @ '' with '' @ show_nat 0 @ '' bound.''] d"
  have "dispatch h args d = (Inr (), d, ?out)" using assms by (rule dispatch_absent)
  moreover have "invoked ?out = []" by (rule invoked_verbosePrint)
  moreover have "warnings ?out = []" by (rule warnings_verbosePrint)
  moreover have "\<not> verbose d \<longrightarrow> ?out = []" by (simp add: verbosePrint_def)
  ultimately show ?thesis by blast
qed

theorem dispatch_absent_handle_noop_witness:
  "boundOperations (fst (new_BaseDispatcher appending False)) ''ping'' = None
   \<and> boundPostOperations (fst (new_BaseDispatcher appending False)) ''ping'' = None
   \<and> \<not> verbose (fst (new_BaseDispatcher appending False))
   \<and> dispatch ''ping'' [VNum 1] (fst (new_BaseDispatcher appending False))
       = (Inr (), fst (new_BaseDispatcher appending False), [])"
proof -
  have a: "boundOperations (fst (new_BaseDispatcher appending False)) ''ping'' = None"
    by (simp add: fst_new_BaseDispatcher)
  have b: "boundPostOperations (fst (new_BaseDispatcher appending False)) ''ping'' = None"
    by (simp add: fst_new_BaseDispatcher)
  have v: "\<not> verbose (fst (new_BaseDispatcher appending False))"
    by (simp add: fst_new_BaseDispatcher)
  from dispatch_absent_handle_noop[OF a b, of "[VNum 1]"] v a b show ?thesis by auto
qed

section \<open>The function responders\<close>

text \<open>
  C10. \<open>unbind\<close> never changes \<open>incomingFunctions\<close>, whatever identifier it is given.
  After \<open>handle(h, f)\<close> the responder under \<open>h\<close> is \<open>f\<close>, and it stays \<open>f\<close> through every
  sequence of calls that contains no further \<open>handle(h, ...)\<close>: subscribing, unbinding,
  dispatching and receiving remote events and invocations do not remove or replace
  it. \<open>handle\<close> itself returns no identifier.
\<close>


theorem unbind_keeps_responders:
  "incomingFunctions (snd (unbind i d0)) = incomingFunctions d0
   \<and> ((\<forall>f'. Handle h f' \<notin> set cs) \<longrightarrow>
        incomingFunctions (fst (snd (exec cs (fst (handle' h f d))))) h = Some f)"
proof
  show "incomingFunctions (snd (unbind i d0)) = incomingFunctions d0"
    using unbind_result(2)[of i d0] by (cases "unbind i d0") simp
next
  show "(\<forall>f'. Handle h f' \<notin> set cs) \<longrightarrow>
        incomingFunctions (fst (snd (exec cs (fst (handle' h f d))))) h = Some f"
  proof
    assume no: "\<forall>f'. Handle h f' \<notin> set cs"
    define R where "R = (\<lambda>(a::dispatcher) (b::dispatcher). incomingFunctions b h = incomingFunctions a h)"
    obtain rs d' out where e: "exec cs (fst (handle' h f d)) = (rs, d', out)"
      by (cases "exec cs (fst (handle' h f d))") auto
    have "R (fst (handle' h f d)) d'"
    proof (rule exec_rel[of R, OF _ _ _ _ _ e])
      show "\<And>d. R d d" by (simp add: R_def)
      show "\<And>a b c. R a b \<Longrightarrow> R b c \<Longrightarrow> R a c" by (simp add: R_def)
      show "\<And>h g f d i d'. bindListen h g f d = (i, d') \<Longrightarrow> R d d'"
        by (simp add: R_def bindListen_result(3))
      show "\<And>i d r d'. unbind i d = (r, d') \<Longrightarrow> R d d'"
        by (simp add: R_def unbind_result(2))
      show "\<And>h' f' d. Handle h' f' \<in> set cs \<Longrightarrow> R d (fst (handle' h' f' d))"
        using no by (auto simp: R_def handle'_result)
    qed
    then show "incomingFunctions (fst (snd (exec cs (fst (handle' h f d))))) h = Some f"
      using e by (simp add: R_def handle'_result)
  qed
qed


theorem unbind_keeps_responders_witness:
  "(\<forall>f'. Handle ''bar'' f' \<notin> set
        [On ''evt'' (Handler ''g'' [] (\<lambda>a. VNil)),
         Unbind \<lparr>group = IncomingEvents, handle = ''evt'', id' = 0\<rparr>,
         Handle ''other'' (Handler ''g'' [] (\<lambda>a. VNil)),
         Dispatch ''evt'' []])
   \<and> incomingFunctions (fst (snd (exec
        [On ''evt'' (Handler ''g'' [] (\<lambda>a. VNil)),
         Unbind \<lparr>group = IncomingEvents, handle = ''evt'', id' = 0\<rparr>,
         Handle ''other'' (Handler ''g'' [] (\<lambda>a. VNil)),
         Dispatch ''evt'' []]
        (fst (handle' ''bar'' (Handler ''f'' [] (\<lambda>a. VBool True))
               (fst (new_BaseServerDispatcher appending False))))))) ''bar''
     = Some (Handler ''f'' [] (\<lambda>a. VBool True))"
proof -
  have no: "\<forall>f'. Handle ''bar'' f' \<notin> set
        [On ''evt'' (Handler ''g'' [] (\<lambda>a. VNil)),
         Unbind \<lparr>group = IncomingEvents, handle = ''evt'', id' = 0\<rparr>,
         Handle ''other'' (Handler ''g'' [] (\<lambda>a. VNil)),
         Dispatch ''evt'' []]"
    by simp
  from unbind_keeps_responders[of _ _ "''bar''" _ "Handler ''f'' [] (\<lambda>a. VBool True)"
      "fst (new_BaseServerDispatcher appending False)"] no
  show ?thesis by blast
qed

section \<open>Identifiers stay usable\<close>

text \<open>
  C9. An identifier is returned by \<open>listen\<close>, \<open>listenPost\<close> or \<open>on\<close>, that is, by a
  call whose reply is \<open>Identifier i\<close>. Whatever calls follow (further subscriptions,
  unbinds of this or any other identifier, dispatches, remote events and invocations,
  with handlers that subscribe and unbind in turn), the table the identifier points to
  is still in its table, and \<open>unbind i\<close> returns a boolean and does not raise
  (its result is not an \<open>Inl\<close>).
\<close>

theorem unbind_never_raises:
  assumes "step c d = (Identifier i, d1, o1)" and "exec cs d1 = (rs, d2, o2)"
  shows "table (group i) d2 (handle i) \<noteq> None \<and> \<not> isl (fst (unbind i d2))"
proof -
  obtain h g f where bl: "bindListen h g f d = (i, d1)"
    using step_Identifier[OF assms(1)] by blast
  have i: "group i = g" "handle i = h" using bindListen_result(1)[OF bl] by simp_all
  have "table g d1 h \<noteq> None" using bindListen_result(5)[OF bl, of g h] by simp
  then have t: "table (group i) d2 (handle i) \<noteq> None"
    using table_kept_exec[OF assms(2)] i by simp
  then obtain m where "table (group i) d2 (handle i) = Some m" by blast
  then have "\<not> isl (fst (unbind i d2))"
    by (simp add: unbind_def split: prod.splits)
  with t show ?thesis by simp
qed

theorem unbind_never_raises_witness:
  "fst (step (Listen ''e'' (Handler ''f'' [] (\<lambda>a. VNil))) (fst (new_BaseDispatcher appending False)))
     = Identifier \<lparr>group = BoundOperations, handle = ''e'', id' = 0\<rparr>
   \<and> table BoundOperations
        (fst (snd (exec
           [Unbind \<lparr>group = BoundOperations, handle = ''e'', id' = 0\<rparr>,
            Dispatch ''e'' [],
            Unbind \<lparr>group = BoundOperations, handle = ''e'', id' = 0\<rparr>]
           (fst (snd (step (Listen ''e'' (Handler ''f'' [] (\<lambda>a. VNil)))
                        (fst (new_BaseDispatcher appending False)))))))) ''e'' \<noteq> None
   \<and> \<not> isl (fst (unbind \<lparr>group = BoundOperations, handle = ''e'', id' = 0\<rparr>
        (fst (snd (exec
           [Unbind \<lparr>group = BoundOperations, handle = ''e'', id' = 0\<rparr>,
            Dispatch ''e'' [],
            Unbind \<lparr>group = BoundOperations, handle = ''e'', id' = 0\<rparr>]
           (fst (snd (step (Listen ''e'' (Handler ''f'' [] (\<lambda>a. VNil)))
                        (fst (new_BaseDispatcher appending False))))))))))"
proof -
  let ?c = "Listen ''e'' (Handler ''f'' [] (\<lambda>a. VNil))"
  let ?d = "fst (new_BaseDispatcher appending False)"
  let ?i = "\<lparr>group = BoundOperations, handle = ''e'', id' = 0\<rparr>"
  let ?cs = "[Unbind ?i, Dispatch ''e'' [], Unbind ?i]"
  let ?d1 = "fst (snd (step ?c ?d))"
  have 1: "fst (step ?c ?d) = Identifier ?i"
    by (simp add: listen_def bindListen_def map_set_appending Let_def fst_new_BaseDispatcher)
  then have s: "step ?c ?d = (Identifier ?i, ?d1, snd (snd (step ?c ?d)))"
    by (metis prod.collapse)
  have e: "exec ?cs ?d1 = (fst (exec ?cs ?d1), fst (snd (exec ?cs ?d1)), snd (snd (exec ?cs ?d1)))"
    by simp
  from unbind_never_raises[OF s e] 1 show ?thesis by simp
qed

section \<open>Identifiers are never reused\<close>

text \<open>
  C7. \<open>issued rs\<close> are the ids of the identifiers a sequence of calls returned, in the
  order of the calls. For every sequence of calls on a dispatcher (subscribe calls
  mixed with unbinds, dispatches and remote messages) these ids are strictly
  increasing, hence pairwise distinct whatever table each went to; each is at least
  the counter before the sequence and below the counter after it, so that, in a
  well-formed dispatcher, it differs from every id registered before, and unbinding
  an id never makes it come back.
\<close>

theorem issued_ids_increase:
  assumes "exec cs d = (rs, d', out)"
  shows "sorted_wrt (<) (issued rs) \<and> distinct (issued rs)
         \<and> (\<forall>k \<in> set (issued rs). caseNumber d \<le> k \<and> k < caseNumber d')
         \<and> (well_formed d \<longrightarrow> (\<forall>g h. set (ids d g h) \<inter> set (issued rs) = {}))"
proof -
  have main: "sorted_wrt (<) (issued rs) \<and> (\<forall>k \<in> set (issued rs). caseNumber d \<le> k \<and> k < caseNumber d')"
    using assms
  proof (induction cs arbitrary: d rs d' out)
    case Nil
    then show ?case by simp
  next
    case (Cons c cs)
    obtain r d1 o1 where x: "step c d = (r, d1, o1)" by (cases "step c d") auto
    obtain rs2 d2 o2 where y: "exec cs d1 = (rs2, d2, o2)" by (cases "exec cs d1") auto
    have rs: "rs = r # rs2" and d': "d' = d2" using x y Cons.prems by simp_all
    have ih: "sorted_wrt (<) (issued rs2)" "\<And>k. k \<in> set (issued rs2) \<Longrightarrow> caseNumber d1 \<le> k \<and> k < caseNumber d2"
      using Cons.IH[OF y] by blast+
    have mono: "caseNumber d \<le> caseNumber d1" using caseNumber_step[OF x] .
    have mono2: "caseNumber d1 \<le> caseNumber d2" using caseNumber_exec[OF y] .
    show ?case
    proof (cases r)
      case (Identifier i)
      then obtain h g f where bl: "bindListen h g f d = (i, d1)"
        using step_Identifier x by blast
      have i: "id' i = caseNumber d" using bindListen_result(1)[OF bl] by simp
      have c1: "caseNumber d1 = Suc (caseNumber d)" using bindListen_result(2)[OF bl] .
      show ?thesis using ih mono2 by (auto simp: rs d' Identifier i c1) fastforce+
    next
      case (Removed b)
      then show ?thesis using ih mono by (auto simp: rs d') fastforce+
    next
      case Done
      then show ?thesis using ih mono by (auto simp: rs d') fastforce+
    next
      case (Returned v)
      then show ?thesis using ih mono by (auto simp: rs d') fastforce+
    next
      case (Raised err)
      then show ?thesis using ih mono by (auto simp: rs d') fastforce+
    qed
  qed
  then have "distinct (issued rs)" using strict_sorted_iff[of "issued rs"] by blast
  moreover have "well_formed d \<longrightarrow> (\<forall>g h. set (ids d g h) \<inter> set (issued rs) = {})"
    using main well_formed_bound[of d] by fastforce
  ultimately show ?thesis using main by blast
qed

theorem issued_ids_increase_witness:
  "issued (fst (exec
      [Listen ''a'' (Handler ''f'' [] (\<lambda>a. VNil)),
       Unbind \<lparr>group = BoundOperations, handle = ''a'', id' = 0\<rparr>,
       ListenPost ''a'' (Handler ''f'' [] (\<lambda>a. VNil)),
       On ''b'' (Handler ''f'' [] (\<lambda>a. VNil))]
      (fst (new_BaseDispatcher appending False)))) = [0, 1, 2]
   \<and> sorted_wrt (<) (issued (fst (exec
      [Listen ''a'' (Handler ''f'' [] (\<lambda>a. VNil)),
       Unbind \<lparr>group = BoundOperations, handle = ''a'', id' = 0\<rparr>,
       ListenPost ''a'' (Handler ''f'' [] (\<lambda>a. VNil)),
       On ''b'' (Handler ''f'' [] (\<lambda>a. VNil))]
      (fst (new_BaseDispatcher appending False)))))
   \<and> distinct (issued (fst (exec
      [Listen ''a'' (Handler ''f'' [] (\<lambda>a. VNil)),
       Unbind \<lparr>group = BoundOperations, handle = ''a'', id' = 0\<rparr>,
       ListenPost ''a'' (Handler ''f'' [] (\<lambda>a. VNil)),
       On ''b'' (Handler ''f'' [] (\<lambda>a. VNil))]
      (fst (new_BaseDispatcher appending False)))))"
proof -
  let ?cs = "[Listen ''a'' (Handler ''f'' [] (\<lambda>a. VNil)),
       Unbind \<lparr>group = BoundOperations, handle = ''a'', id' = 0\<rparr>,
       ListenPost ''a'' (Handler ''f'' [] (\<lambda>a. VNil)),
       On ''b'' (Handler ''f'' [] (\<lambda>a. VNil))]"
  let ?d = "fst (new_BaseDispatcher appending False)"
  have v: "issued (fst (exec ?cs ?d)) = [0, 1, 2]"
    by (simp add: listen_def listenPost_def on_def bindListen_def map_set_appending unbind_def Let_def
        fst_new_BaseDispatcher)
  have e: "exec ?cs ?d = (fst (exec ?cs ?d), fst (snd (exec ?cs ?d)), snd (snd (exec ?cs ?d)))"
    by simp
  from issued_ids_increase[OF e] v show ?thesis by blast
qed

section \<open>One responder for a handle\<close>

text \<open>
  C5. After \<open>handle(h, f1)\<close> and then \<open>handle(h, f2)\<close> the responder under \<open>h\<close> is \<open>f2\<close>.
  An \<open>invoke(h, args)\<close> of player \<open>p\<close> that reaches this server invokes \<open>f2\<close>, once, with
  \<open>p\<close> before \<open>args\<close>, and no other handler; what it gives back is what \<open>f2\<close> gives: the
  value \<open>f2\<close> returns, or the error \<open>f2\<close> raises if one of its own calls into the
  dispatcher raises. \<open>f1\<close> is not invoked.
\<close>

theorem second_handle_replaces_first:
  "incomingFunctions (fst (handle' h f2 (fst (handle' h f1 d)))) h = Some f2
   \<and> invoked (snd (snd (invoke p h args (fst (handle' h f2 (fst (handle' h f1 d)))))))
       = [CallFunction h f2 (VPlayer p # args)]
   \<and> fst (invoke p h args (fst (handle' h f2 (fst (handle' h f1 d)))))
       = (case fst (run_effects (body f2) (fst (handle' h f2 (fst (handle' h f1 d))))) of
            Inl err \<Rightarrow> Inl err
          | Inr u \<Rightarrow> Inr (Some (ret f2 (VPlayer p # args))))"
proof -
  let ?d = "fst (handle' h f2 (fst (handle' h f1 d)))"
  have 1: "incomingFunctions ?d h = Some f2" by (simp add: handle'_result)
  obtain r1 d1 o1 where b: "run_effects (body f2) ?d = (r1, d1, o1)"
    by (cases "run_effects (body f2) ?d") auto
  have q: "invoked o1 = []" using quiet_invoked_warnings[OF run_effects_quiet[OF b]] by simp
  have inv: "invoke p h args ?d =
      (case r1 of Inl err \<Rightarrow> Inl err | Inr u \<Rightarrow> Inr (Some (ret f2 (VPlayer p # args))),
       d1, CallFunction h f2 (VPlayer p # args) # o1)"
    using 1 b
    by (cases r1) (simp_all add: invoke_def onFunction_def verifyRemoteExistance_def handleFunction_def)
  show ?thesis using 1 q b by (simp add: inv invoked_def)
qed

theorem second_handle_replaces_first_witness:
  "invoke (Player ''ann'') ''bar'' [VNum 5]
     (fst (handle' ''bar'' (Handler ''f2'' [] (\<lambda>a. VNum 2))
        (fst (handle' ''bar'' (Handler ''f1'' [] (\<lambda>a. VNum 1))
           (fst (new_BaseServerDispatcher appending False))))))
   = (Inr (Some (VNum 2)),
      fst (handle' ''bar'' (Handler ''f2'' [] (\<lambda>a. VNum 2))
        (fst (handle' ''bar'' (Handler ''f1'' [] (\<lambda>a. VNum 1))
           (fst (new_BaseServerDispatcher appending False))))),
      [CallFunction ''bar'' (Handler ''f2'' [] (\<lambda>a. VNum 2)) [VPlayer (Player ''ann''), VNum 5]])"
proof -
  let ?d = "fst (handle' ''bar'' (Handler ''f2'' [] (\<lambda>a. VNum 2))
        (fst (handle' ''bar'' (Handler ''f1'' [] (\<lambda>a. VNum 1))
           (fst (new_BaseServerDispatcher appending False)))))"
  have "fst (invoke (Player ''ann'') ''bar'' [VNum 5] ?d) = Inr (Some (VNum 2))"
    using second_handle_replaces_first[of "''bar''" "Handler ''f2'' [] (\<lambda>a. VNum 2)"
        "Handler ''f1'' [] (\<lambda>a. VNum 1)" "fst (new_BaseServerDispatcher appending False)"
        "Player ''ann''" "[VNum 5]"]
    by simp
  moreover have "snd (invoke (Player ''ann'') ''bar'' [VNum 5] ?d)
      = (?d, [CallFunction ''bar'' (Handler ''f2'' [] (\<lambda>a. VNum 2)) [VPlayer (Player ''ann''), VNum 5]])"
    by (simp add: invoke_def onFunction_def verifyRemoteExistance_def handleFunction_def handle'_def)
  ultimately show ?thesis by (metis prod.collapse)
qed

section \<open>Messages with an unknown handle\<close>

text \<open>
  C3, as the claim states it, fails on the client: a new client that is not verbose has
  no registration of any kind under \<open>ghost\<close>, and a message with that handle makes it
  emit nothing at all, so not exactly one warning.
\<close>

theorem client_unknown_handle_counterexample:
  "incomingEvents (fst (new_BaseDispatcher appending False)) ''ghost'' = None
   \<and> boundOperations (fst (new_BaseDispatcher appending False)) ''ghost'' = None
   \<and> boundPostOperations (fst (new_BaseDispatcher appending False)) ''ghost'' = None
   \<and> snd (snd (client_handleEvent ''ghost'' [VNum 1] (fst (new_BaseDispatcher appending False)))) = []
   \<and> length (warnings (snd (snd (client_handleEvent ''ghost'' [VNum 1]
         (fst (new_BaseDispatcher appending False)))))) \<noteq> 1"
  by (simp add: client_handleEvent_def dispatch_def verbosePrint_def warnings_def
      fst_new_BaseDispatcher)

text \<open>
  C3, amended. On the server, a message whose handle is not a string or is not a key of
  \<open>incomingEvents\<close> makes \<open>onEvent\<close> emit exactly one warning, naming the player, invoke
  no handler and leave the dispatcher as it was. The client does not check the handle
  and never warns: it passes every message to \<open>dispatch\<close>, which for a handle that is a
  key of neither of its tables invokes no handler and leaves the dispatcher as it was.
\<close>

theorem unknown_handle_server_warns_client_silent:
  "(\<not> verifyRemoteExistance key (incomingEvents d) \<longrightarrow>
      onEvent p key args d
        = (Inr (), d, [Warn (Name p @ '' tried to fire a non-existant event!'')])
      \<and> length (warnings (snd (snd (onEvent p key args d)))) = 1
      \<and> invoked (snd (snd (onEvent p key args d))) = [])
   \<and> warnings (snd (snd (client_handleEvent h args d))) = []
   \<and> (boundOperations d h = None \<and> boundPostOperations d h = None \<longrightarrow>
        fst (client_handleEvent h args d) = Inr ()
        \<and> fst (snd (client_handleEvent h args d)) = d
        \<and> invoked (snd (snd (client_handleEvent h args d))) = [])"
proof (intro conjI impI)
  assume n: "\<not> verifyRemoteExistance key (incomingEvents d)"
  then show e: "onEvent p key args d
        = (Inr (), d, [Warn (Name p @ '' tried to fire a non-existant event!'')])"
    by (simp add: onEvent_def)
  show "length (warnings (snd (snd (onEvent p key args d)))) = 1"
    by (simp add: e warnings_def)
  show "invoked (snd (snd (onEvent p key args d))) = []"
    by (simp add: e invoked_def)
next
  show "warnings (snd (snd (client_handleEvent h args d))) = []"
    by (simp add: client_handleEvent_def dispatch_no_warning)
next
  assume a: "boundOperations d h = None \<and> boundPostOperations d h = None"
  then have d: "dispatch h args d = (Inr (), d, verbosePrint [''Queued '' @ quoted h @ '' with '' @ show_nat 0 @ '' bound.''] d)"
    by (simp add: dispatch_absent)
  show "fst (client_handleEvent h args d) = Inr ()"
    by (simp add: client_handleEvent_def d)
  show "fst (snd (client_handleEvent h args d)) = d"
    by (simp add: client_handleEvent_def d)
  show "invoked (snd (snd (client_handleEvent h args d))) = []"
    by (simp add: client_handleEvent_def d invoked_verbosePrint)
qed

theorem unknown_handle_server_warns_client_silent_witness:
  "\<not> verifyRemoteExistance (VStr ''ghost'') (incomingEvents (fst (new_BaseServerDispatcher appending True)))
   \<and> \<not> verifyRemoteExistance (VNum 3) (incomingEvents (fst (new_BaseServerDispatcher appending True)))
   \<and> onEvent (Player ''eve'') (VStr ''ghost'') [] (fst (new_BaseServerDispatcher appending True))
       = (Inr (), fst (new_BaseServerDispatcher appending True),
          [Warn ''eve tried to fire a non-existant event!''])
   \<and> boundOperations (fst (new_BaseDispatcher appending True)) ''ghost'' = None
   \<and> boundPostOperations (fst (new_BaseDispatcher appending True)) ''ghost'' = None
   \<and> invoked (snd (snd (client_handleEvent ''ghost'' [] (fst (new_BaseDispatcher appending True))))) = []
   \<and> warnings (snd (snd (client_handleEvent ''ghost'' [] (fst (new_BaseDispatcher appending True))))) = []"
proof -
  have a: "\<not> verifyRemoteExistance (VStr ''ghost'') (incomingEvents (fst (new_BaseServerDispatcher appending True)))"
    by (simp add: verifyRemoteExistance_def fst_new_BaseServerDispatcher fst_new_BaseDispatcher)
  have a': "\<not> verifyRemoteExistance (VNum 3) (incomingEvents (fst (new_BaseServerDispatcher appending True)))"
    by (simp add: verifyRemoteExistance_def)
  have b: "boundOperations (fst (new_BaseDispatcher appending True)) ''ghost'' = None
      \<and> boundPostOperations (fst (new_BaseDispatcher appending True)) ''ghost'' = None"
    by (simp add: fst_new_BaseDispatcher)
  from unknown_handle_server_warns_client_silent[where key = "VStr ''ghost''"
      and d = "fst (new_BaseServerDispatcher appending True)" and p = "Player ''eve''" and args = "[]"]
    unknown_handle_server_warns_client_silent[where d = "fst (new_BaseDispatcher appending True)"
      and h = "''ghost''" and args = "[]"]
    a a' b
  show ?thesis by simp
qed


section \<open>Unbinding once, and once more\<close>




section \<open>The order of a dispatch\<close>




section \<open>Handlers of remote events are given the sender\<close>




section \<open>Handlers that change the registrations during a dispatch\<close>





end
